theory Spec2Isabelle
  imports Main "HOL-Library.FSet" "HOL-Library.Sublist"
begin

section \<open>Python strings and lists\<close>

text \<open>
  The operations of \<open>str\<close> and \<open>list\<close> that the two scripts use, on \<open>string\<close>
  (a list of characters).
\<close>

text \<open>\<open>sub in s\<close>: \<open>sub\<close> occurs in \<open>s\<close> as a contiguous substring.\<close>

fun contains :: "string \<Rightarrow> string \<Rightarrow> bool" where
  "contains sub [] = (sub = [])"
| "contains sub (c # cs) = (prefix sub (c # cs) \<or> contains sub cs)"

definition startswith :: "string \<Rightarrow> string \<Rightarrow> bool" where
  "startswith s p = prefix p s"

definition endswith :: "string \<Rightarrow> string \<Rightarrow> bool" where
  "endswith s e = prefix (rev e) (rev s)"

text \<open>
  \<open>s.replace(old, new)\<close>: every occurrence of \<open>old\<close>, found from left to right without
  overlap, becomes \<open>new\<close>; an empty \<open>old\<close> matches before every character and at the end.
\<close>

function str_replace :: "string \<Rightarrow> string \<Rightarrow> string \<Rightarrow> string" where
  "str_replace old new [] = (if old = [] then new else [])"
| "str_replace old new (c # cs) =
     (if old = [] then new @ c # str_replace old new cs
      else if prefix old (c # cs) then new @ str_replace old new (drop (length old) (c # cs))
      else c # str_replace old new cs)"
  by pat_completeness auto
termination
  by (relation "measure (\<lambda>(old, new, s). length s)") auto

text \<open>
  \<open>s.split(c)\<close> for a one-character separator: the part before the first separator,
  then the parts of what follows it; a string without separator is its only part.
\<close>

function split :: "char \<Rightarrow> string \<Rightarrow> string list" where
  "split c s =
     (case dropWhile (\<lambda>x. x \<noteq> c) s of
        [] \<Rightarrow> [s]
      | x # rest \<Rightarrow> takeWhile (\<lambda>x. x \<noteq> c) s # split c rest)"
  by pat_completeness auto
termination
proof (relation "measure (\<lambda>(c, s). length s)")
  show "wf (measure (\<lambda>(c, s). length s))" by simp
next
  fix c :: char and s x rest
  assume "dropWhile (\<lambda>x. x \<noteq> c) s = x # rest"
  then have "Suc (length rest) = length (dropWhile (\<lambda>x. x \<noteq> c) s)" by simp
  also have "\<dots> \<le> length s" by (rule length_dropWhile_le)
  finally show "((c, rest), (c, s)) \<in> measure (\<lambda>(c, s). length s)" by simp
qed

declare split.simps [simp del]

text \<open>\<open>sep.join(parts)\<close>.\<close>

fun join :: "string \<Rightarrow> string list \<Rightarrow> string" where
  "join sep [] = []"
| "join sep [x] = x"
| "join sep (x # y # ys) = x @ sep @ join sep (y # ys)"

text \<open>\<open>s.lower()\<close> on ASCII text: the letters A to Z become a to z.\<close>

definition lower_char :: "char \<Rightarrow> char" where
  "lower_char c =
     (if 65 \<le> (of_char c :: nat) \<and> (of_char c :: nat) \<le> 90
      then char_of ((of_char c :: nat) + 32) else c)"

definition lower :: "string \<Rightarrow> string" where
  "lower s = map lower_char s"

text \<open>\<open>str(n)\<close> for an integer, in decimal.\<close>

fun str_nat :: "nat \<Rightarrow> string" where
  "str_nat n =
     (if n < 10 then [''0123456789'' ! n]
      else str_nat (n div 10) @ [''0123456789'' ! (n mod 10)])"

declare str_nat.simps [simp del]

definition str_int :: "int \<Rightarrow> string" where
  "str_int i = (if i < 0 then ''-'' @ str_nat (nat (- i)) else str_nat (nat i))"

section \<open>Commit planner (commit-planner.py)\<close>

subsection \<open>Data model\<close>

text \<open>
  A commit suggestion is a JSON object. The planner reads \<open>commit['type']\<close> (mandatory),
  \<open>commit.get('scope')\<close> (may be absent: \<open>None\<close>), \<open>commit.get('subject', '')\<close> and
  \<open>commit.get('files', [])\<close>.
\<close>

record commit =
  type :: string
  scope :: "string option"
  subject :: "string option"
  files :: "string list"

text \<open>
  How a call can end without a value: a Python exception that nothing catches, or the
  fatal exit of \<open>topological_sort\<close>, which prints the fixed line
  \<open>Error: Circular dependency detected\<close> on stderr and calls \<open>sys.exit(1)\<close>.
\<close>

datatype error =
    TypeError
  | ValueError
  | CircularDependency

definition TYPE_PRIORITY :: "(string \<times> nat) list" where
  "TYPE_PRIORITY =
     [(''feat'', 1), (''fix'', 2), (''refactor'', 3), (''perf'', 4), (''test'', 5),
      (''docs'', 6), (''style'', 7), (''chore'', 8), (''ci'', 9), (''build'', 10)]"

text \<open>The sort key \<open>TYPE_PRIORITY.get(commits[x]['type'], 99)\<close>.\<close>

definition priority :: "commit list \<Rightarrow> nat \<Rightarrow> nat" where
  "priority commits x =
     (case map_of TYPE_PRIORITY (type (commits ! x)) of Some p \<Rightarrow> p | None \<Rightarrow> 99)"

subsection \<open>Dependency detection\<close>

text \<open>
  \<open>has_import_dependency\<close> asks git for the staged content of the target file
  (\<open>git show :target\<close>; the empty string when git fails). The provider is the parameter
  \<open>content\<close>. Any exception inside is swallowed by the bare \<open>except\<close>, so the function
  always returns a truth value.
\<close>

definition has_import_dependency :: "(string \<Rightarrow> string) \<Rightarrow> string \<Rightarrow> string \<Rightarrow> bool" where
  "has_import_dependency content source_file target_file =
     (let source_module =
            str_replace ''.ts'' [] (str_replace ''.js'' []
              (str_replace ''.py'' [] (str_replace ''/'' ''.'' source_file)))
      in list_ex (\<lambda>imp. contains imp (content target_file))
           [''import '' @ source_module, ''from '' @ source_module,
            ''require('' @ [CHR 0x27] @ source_module])"

text \<open>
  \<open>detect_dependencies(commit1, commit2)\<close>: does \<open>commit2\<close> depend on \<open>commit1\<close>? The
  three type rules are tried in order, then the import rule over the two file sets. In
  the docs rule, \<open>commit1.get('scope') in commit2.get('subject', '')\<close> raises
  \<open>TypeError\<close> when the scope is \<open>None\<close>.
\<close>

definition docs_rule :: "commit \<Rightarrow> commit \<Rightarrow> error + bool" where
  "docs_rule commit1 commit2 =
     (if type commit1 = ''feat'' \<and> type commit2 = ''docs'' then
        (case scope commit1 of
           None \<Rightarrow> Inl TypeError
         | Some s \<Rightarrow> Inr (contains s (case subject commit2 of None \<Rightarrow> [] | Some t \<Rightarrow> t)))
      else Inr False)"

definition detect_dependencies :: "(string \<Rightarrow> string) \<Rightarrow> commit \<Rightarrow> commit \<Rightarrow> error + bool" where
  "detect_dependencies content commit1 commit2 =
     (if type commit1 \<noteq> ''test'' \<and> type commit2 = ''test'' \<and> scope commit1 = scope commit2
      then Inr True
      else
        (case docs_rule commit1 commit2 of
           Inl e \<Rightarrow> Inl e
         | Inr True \<Rightarrow> Inr True
         | Inr False \<Rightarrow>
             if type commit1 = ''feat'' \<and> type commit2 = ''fix'' \<and> scope commit1 = scope commit2
             then Inr True
             else Inr (list_ex (\<lambda>file2.
                         list_ex (\<lambda>file1. has_import_dependency content file1 file2)
                           (files commit1))
                       (files commit2))))"

subsection \<open>The dependency graph\<close>

text \<open>
  The dependency graph is a \<open>defaultdict(set)\<close>: every key has a finite set of
  predecessors, the empty set when the key was never written.
\<close>

type_synonym graph = "nat \<Rightarrow> nat fset"

text \<open>
  \<open>build_dependency_graph\<close>: the two nested \<open>enumerate\<close> loops visit the pairs
  \<open>(i, j)\<close> row by row; \<open>graph[j].add(i)\<close> records that commit \<open>j\<close> depends on commit
  \<open>i\<close>. An exception of \<open>detect_dependencies\<close> ends the loops.
\<close>

fun build_loop :: "(string \<Rightarrow> string) \<Rightarrow> commit list \<Rightarrow> (nat \<times> nat) list \<Rightarrow> graph \<Rightarrow> error + graph" where
  "build_loop content commits [] graph = Inr graph"
| "build_loop content commits ((i, j) # pairs) graph =
     (if i \<noteq> j then
        (case detect_dependencies content (commits ! i) (commits ! j) of
           Inl e \<Rightarrow> Inl e
         | Inr True \<Rightarrow> build_loop content commits pairs (graph(j := finsert i (graph j)))
         | Inr False \<Rightarrow> build_loop content commits pairs graph)
      else build_loop content commits pairs graph)"

definition build_dependency_graph :: "(string \<Rightarrow> string) \<Rightarrow> commit list \<Rightarrow> error + graph" where
  "build_dependency_graph content commits =
     build_loop content commits
       (List.product [0..<length commits] [0..<length commits]) (\<lambda>node. {||})"

subsection \<open>Topological sort\<close>

text \<open>
  The loop of \<open>topological_sort\<close> works on four variables. \<open>dependencies\<close> is the
  caller's object, mutated in place, so its final value is part of what the function
  leaves behind.
\<close>

record sort_state =
  queue :: "nat list"
  result :: "nat list"
  dependencies :: graph
  in_degree :: "nat \<Rightarrow> int"

text \<open>One pass of the body of \<open>for other_node in range(len(commits))\<close>.\<close>

definition relax :: "nat \<Rightarrow> nat \<Rightarrow> sort_state \<Rightarrow> sort_state" where
  "relax node other_node st =
     (if node |\<in>| dependencies st other_node then
        let deg = in_degree st other_node - 1 in
        st\<lparr>dependencies := (dependencies st)(other_node := dependencies st other_node |-| {|node|}),
           in_degree := (in_degree st)(other_node := deg),
           queue := (if deg = 0 then queue st @ [other_node] else queue st)\<rparr>
      else st)"

text \<open>
  One iteration of \<open>while queue\<close>: the queue is sorted by priority (Python's sort is
  stable, as \<open>sort_key\<close> is), its head is popped and appended to the result, and every
  node is relaxed.
\<close>

definition sort_step :: "commit list \<Rightarrow> sort_state \<Rightarrow> sort_state" where
  "sort_step commits st =
     (let queue_list = sort_key (priority commits) (queue st);
          node = hd queue_list
      in fold (relax node) [0..<length commits]
           (st\<lparr>queue := tl queue_list, result := result st @ [node]\<rparr>))"

text \<open>
  What is left to do: the nodes that wait in the queue and the dependencies that are
  still recorded. Every iteration makes it smaller, which is why the loop ends.
\<close>

definition pending :: "nat \<Rightarrow> sort_state \<Rightarrow> nat" where
  "pending n st = length (queue st) + (\<Sum>k<n. fcard (dependencies st k))"

text \<open>The loop \<open>while queue: ...\<close>, returning the variables as the loop leaves them.\<close>

function sort_loop :: "commit list \<Rightarrow> sort_state \<Rightarrow> sort_state" where
  "sort_loop commits st =
     (if queue st = [] then st else sort_loop commits (sort_step commits st))"
  by pat_completeness auto

text \<open>
  The variables before the loop: \<open>in_degree[node] = len(dependencies[node])\<close> for every
  node of \<open>range(len(commits))\<close> (other keys of the \<open>defaultdict(int)\<close> read as 0), and
  the queue of the nodes with in-degree 0, in ascending order.
\<close>

definition initial_state :: "commit list \<Rightarrow> graph \<Rightarrow> sort_state" where
  "initial_state commits deps =
     (let deg = (\<lambda>node. if node < length commits then int (fcard (deps node)) else 0)
      in \<lparr>queue = filter (\<lambda>node. deg node = 0) [0..<length commits],
          result = [],
          dependencies = deps,
          in_degree = deg\<rparr>)"

text \<open>The variables when the loop has ended.\<close>

definition final_state :: "commit list \<Rightarrow> graph \<Rightarrow> sort_state" where
  "final_state commits deps = sort_loop commits (initial_state commits deps)"

text \<open>The states that the loop passes through, from the first test of \<open>while queue\<close> on.\<close>

inductive reachable :: "commit list \<Rightarrow> graph \<Rightarrow> sort_state \<Rightarrow> bool"
  for commits :: "commit list" and deps :: graph where
  start: "reachable commits deps (initial_state commits deps)"
| step: "reachable commits deps st \<Longrightarrow> queue st \<noteq> [] \<Longrightarrow>
         reachable commits deps (sort_step commits st)"

text \<open>
  \<open>topological_sort\<close>: the order, together with the graph as the call leaves it, or the
  fatal exit when fewer nodes were emitted than there are commits.
\<close>

definition topological_sort :: "commit list \<Rightarrow> graph \<Rightarrow> error + nat list \<times> graph" where
  "topological_sort commits deps =
     (let st = final_state commits deps
      in if length (result st) \<noteq> length commits then Inl CircularDependency
         else Inr (result st, dependencies st))"

text \<open>The nodes that the loop left without a position, in ascending order.\<close>

definition unassigned :: "commit list \<Rightarrow> graph \<Rightarrow> nat list" where
  "unassigned commits deps =
     filter (\<lambda>node. node \<notin> set (result (final_state commits deps))) [0..<length commits]"

text \<open>
  The dependency edges among the commits: \<open>(p, d)\<close> when commit \<open>d\<close> has \<open>p\<close> in its
  dependency set.
\<close>

definition edges :: "nat \<Rightarrow> graph \<Rightarrow> (nat \<times> nat) set" where
  "edges n deps = {(p, d). d < n \<and> p |\<in>| deps d}"

subsection \<open>The planned sequence\<close>

text \<open>
  \<open>create_sequence\<close> copies every commit in the sorted order and adds four keys.
  \<open>order.index(d)\<close> raises \<open>ValueError\<close> for a \<open>d\<close> that is not in the order. The
  dependency sets are read from the graph object after \<open>topological_sort\<close> has worked
  on it.
\<close>

record planned = commit +
  order :: nat
  commit_id :: nat
  original_id :: nat
  can_execute :: string

text \<open>\<open>xs.index(x)\<close> for an \<open>x\<close> that occurs in \<open>xs\<close>: its first position.\<close>

definition index :: "nat list \<Rightarrow> nat \<Rightarrow> nat" where
  "index xs x = length (takeWhile (\<lambda>y. y \<noteq> x) xs)"

text \<open>The note \<open>can_execute\<close> for a commit with the dependency set \<open>deps\<close>.\<close>

definition when_can_execute :: "nat list \<Rightarrow> nat fset \<Rightarrow> error + string" where
  "when_can_execute emitted deps =
     (if deps = {||} then Inr ''now''
      else if \<not> fset deps \<subseteq> set emitted then Inl ValueError
      else Inr (''after commit '' @ str_nat (Min ((\<lambda>d. index emitted d + 1) ` fset deps))))"

fun sequence_loop :: "commit list \<Rightarrow> nat list \<Rightarrow> graph \<Rightarrow> (nat \<times> nat) list \<Rightarrow> error + planned list" where
  "sequence_loop commits emitted deps [] = Inr []"
| "sequence_loop commits emitted deps ((idx, commit_idx) # rest) =
     (case when_can_execute emitted (deps commit_idx) of
        Inl e \<Rightarrow> Inl e
      | Inr note \<Rightarrow>
          (case sequence_loop commits emitted deps rest of
             Inl e \<Rightarrow> Inl e
           | Inr plan \<Rightarrow>
               Inr (commit.extend (commits ! commit_idx)
                      (planned.fields (idx + 1) (commit_idx + 1) commit_idx note) # plan)))"

definition create_sequence :: "(string \<Rightarrow> string) \<Rightarrow> commit list \<Rightarrow> error + planned list" where
  "create_sequence content commits =
     (case build_dependency_graph content commits of
        Inl e \<Rightarrow> Inl e
      | Inr dependencies0 \<Rightarrow>
          (case topological_sort commits dependencies0 of
             Inl e \<Rightarrow> Inl e
           | Inr (emitted, dependencies1) \<Rightarrow>
               sequence_loop commits emitted dependencies1 (enumerate 0 emitted)))"

subsection \<open>Iteration over the file sets\<close>



section \<open>Split analyzer (split-analyzer.py)\<close>

subsection \<open>Type and scope of one file\<close>

text \<open>
  \<open>detect_type_from_diff\<close>: four checks on the path, in order, then the checks on the
  added lines of the diff.
\<close>

definition type_from_diff_content :: "string \<Rightarrow> string" where
  "type_from_diff_content diff =
     (let added_lines =
            filter (\<lambda>line. startswith line ''+'' \<and> \<not> startswith line ''+++'')
              (split (CHR 0x0A) diff);
          added = join '' '' added_lines
      in if list_ex (\<lambda>keyword. contains keyword added)
              [''function '', ''class '', ''def '', ''const '', ''let '', ''var ''] \<and>
            list_ex (\<lambda>keyword. contains keyword added)
              [''new '', ''add'', ''implement'', ''create'']
         then ''feat''
         else if list_ex (\<lambda>keyword. contains keyword (lower added))
              [''fix'', ''bug'', ''error'', ''issue'', ''null'', ''undefined'']
         then ''fix''
         else if list_ex (\<lambda>keyword. contains keyword (lower added))
              [''refactor'', ''rename'', ''move'', ''extract'']
         then ''refactor''
         else if list_ex (\<lambda>keyword. contains keyword (lower added))
              [''performance'', ''optimize'', ''cache'', ''memoize'']
         then ''perf''
         else
           (let removed_lines =
                  filter (\<lambda>line. startswith line ''-'' \<and> \<not> startswith line ''---'')
                    (split (CHR 0x0A) diff)
            in if length added_lines = length removed_lines then ''style''
               else if length added_lines > length removed_lines * 2 then ''feat''
               else ''chore''))"

definition detect_type_from_diff :: "string \<Rightarrow> string \<Rightarrow> string" where
  "detect_type_from_diff file_path diff =
     (if list_ex (endswith file_path) [''.md'', ''.txt'', ''.rst'', ''.adoc''] then ''docs''
      else if list_ex (\<lambda>pattern. contains pattern file_path)
           [''test/'', ''tests/'', ''spec/'', ''__tests__'', ''.test.'', ''.spec.'']
      then ''test''
      else if list_ex (\<lambda>pattern. contains pattern file_path)
           [''.github/'', ''.gitlab-ci'', ''jenkins'', ''.circleci'']
      then ''ci''
      else if list_ex (endswith file_path)
           [''package.json'', ''pom.xml'', ''build.gradle'', ''Makefile'', ''CMakeLists.txt'']
      then ''build''
      else if diff = [] then ''chore''
      else type_from_diff_content diff)"

text \<open>
  \<open>extract_scope_from_path\<close>: the first path component that is not a skipped prefix,
  cut at its first dot; \<open>root\<close> when there is none.
\<close>

definition skip_prefixes :: "string list" where
  "skip_prefixes = [''src'', ''lib'', ''app'', ''packages'', ''tests'', ''test'']"

definition extract_scope_from_path :: "string \<Rightarrow> string" where
  "extract_scope_from_path file_path =
     (case find (\<lambda>part. part \<notin> set skip_prefixes \<and> part \<noteq> ''.'' \<and> part \<noteq> ''..'')
             (split (CHR ''/'') file_path) of
        Some part \<Rightarrow> hd (split (CHR ''.'') part)
      | None \<Rightarrow> ''root'')"

subsection \<open>The analyzer's dictionaries\<close>

text \<open>
  \<open>self.types\<close> and \<open>self.scopes\<close> are \<open>defaultdict(list)\<close>: a dictionary keeps its keys
  in the order of their first insertion, so it is an association list.
  \<open>d[key].append(value)\<close> adds to the list of an old key or enters a new key at the end.
\<close>

type_synonym dict = "(string \<times> string list) list"

fun dict_append :: "dict \<Rightarrow> string \<Rightarrow> string \<Rightarrow> dict" where
  "dict_append [] key v = [(key, [v])]"
| "dict_append ((k, vs) # d) key v =
     (if k = key then (k, vs @ [v]) # d else (k, vs) # dict_append d key v)"

record analyzer =
  types :: dict
  scopes :: dict

text \<open>
  The body of \<open>for file_path in self.files\<close>. The diff of a file comes from git
  (\<open>get_file_diff\<close>); the provider is the parameter \<open>diff_of\<close>.
\<close>

definition analyze_file :: "(string \<Rightarrow> string) \<Rightarrow> string \<Rightarrow> analyzer \<Rightarrow> analyzer" where
  "analyze_file diff_of file_path a =
     (let diff = diff_of file_path;
          file_type = detect_type_from_diff file_path diff;
          file_scope = extract_scope_from_path file_path
      in a\<lparr>types := dict_append (types a) file_type file_path,
           scopes := dict_append (scopes a) file_scope file_path\<rparr>)"

definition analyze_files :: "(string \<Rightarrow> string) \<Rightarrow> string list \<Rightarrow> analyzer" where
  "analyze_files diff_of file_list =
     fold (analyze_file diff_of) file_list \<lparr>types = [], scopes = []\<rparr>"


subsection \<open>Mixed concerns\<close>

text \<open>
  \<open>set(self.scopes[scope] for scope in ...)\<close> builds a set whose elements would be the
  file lists of the chosen scopes. A list is unhashable: adding the first one raises
  \<open>TypeError\<close>, and only an empty selection gives a set, the empty one.
\<close>

fun set_of_lists :: "string list list \<Rightarrow> error + string list set" where
  "set_of_lists [] = Inr {}"
| "set_of_lists (x # xs) = Inl TypeError"

definition detect_mixed_concerns :: "analyzer \<Rightarrow> error + string list" where
  "detect_mixed_concerns a =
     (let has_feature = ''feat'' \<in> set (map fst (types a));
          has_refactor = ''refactor'' \<in> set (map fst (types a));
          has_style = ''style'' \<in> set (map fst (types a));
          found =
            (if has_feature \<and> has_refactor
             then [''Feature implementation mixed with refactoring''] else []) @
            (if has_feature \<and> has_style
             then [''Feature implementation mixed with style changes''] else [])
      in if ''test'' \<in> set (map fst (types a)) then
           (case set_of_lists
                   (map snd (filter (\<lambda>(name, paths). contains ''test'' name) (scopes a))) of
              Inl e \<Rightarrow> Inl e
            | Inr test_scopes \<Rightarrow>
                (case set_of_lists
                        (map snd (filter (\<lambda>(name, paths). \<not> contains ''test'' name) (scopes a))) of
                   Inl e \<Rightarrow> Inl e
                 | Inr impl_scopes \<Rightarrow>
                     Inr (found @
                          (if test_scopes \<noteq> impl_scopes \<and> card impl_scopes > 1
                           then [''Tests for multiple unrelated implementations'']
                           else []))))
         else Inr found)"

subsection \<open>The verdict\<close>

record metrics =
  file_count :: nat
  types_detected :: "string list"
  type_counts :: "(string \<times> nat) list"
  scopes_detected :: "string list"
  scope_counts :: "(string \<times> nat) list"
  concerns :: "string list"
  threshold :: int

text \<open>Checks 1 to 3 of \<open>analyze\<close>: the reasons collected before the mixed concerns.\<close>

definition basic_reasons :: "analyzer \<Rightarrow> nat \<Rightarrow> int \<Rightarrow> string list" where
  "basic_reasons a n limit =
     (if length (types a) > 1
      then [''Multiple types detected: '' @ join '', '' (map fst (types a))] else []) @
     (if length (scopes a) > 1
      then [''Multiple scopes detected: '' @ join '', '' (map fst (scopes a))] else []) @
     (if int n > limit
      then [''Large change: '' @ str_nat n @ '' files (threshold: '' @ str_int limit @ '')'']
      else [])"

text \<open>
  \<open>analyze\<close>, on the list that \<open>get_changed_files\<close> returned: the verdict, the reason
  text and the metrics (an empty dictionary when there is no change), or the exception
  that ends the call.
\<close>

definition analyze :: "(string \<Rightarrow> string) \<Rightarrow> int \<Rightarrow> string list \<Rightarrow> error + bool \<times> string \<times> metrics option" where
  "analyze diff_of limit file_list =
     (if file_list = [] then Inr (False, ''No changes detected'', None)
      else
        (let a = analyze_files diff_of file_list;
             reasons = basic_reasons a (length file_list) limit
         in case detect_mixed_concerns a of
              Inl e \<Rightarrow> Inl e
            | Inr found \<Rightarrow>
                (let reasons' =
                       reasons @
                       (if found \<noteq> [] then [''Mixed concerns: '' @ join ''; '' found] else []);
                     m = \<lparr>file_count = length file_list,
                          types_detected = map fst (types a),
                          type_counts = map (\<lambda>(t, paths). (t, length paths)) (types a),
                          scopes_detected = map fst (scopes a),
                          scope_counts = map (\<lambda>(s, paths). (s, length paths)) (scopes a),
                          concerns = found,
                          threshold = limit\<rparr>
                 in if reasons' \<noteq> [] then Inr (True, join ''; '' reasons', Some m)
                    else Inr (False, ''Changes are atomic - single logical unit'', Some m))))"

section \<open>Definitions for the proofs\<close>

text \<open>
  The variables after the inner loop has visited the nodes below \<open>k\<close>: \<open>node\<close> is
  removed from their dependency sets, and the ones that lose their last dependency
  join the queue in ascending order.
\<close>

definition relaxed :: "nat \<Rightarrow> nat \<Rightarrow> sort_state \<Rightarrow> sort_state" where
  "relaxed node k st =
     st\<lparr>dependencies := (\<lambda>n. if n < k then dependencies st n |-| {|node|} else dependencies st n),
        in_degree := (\<lambda>n. if n < k \<and> node |\<in>| dependencies st n then in_degree st n - 1
                          else in_degree st n),
        queue := queue st @
                 filter (\<lambda>n. node |\<in>| dependencies st n \<and> in_degree st n - 1 = 0) [0..<k]\<rparr>"

text \<open>
  Between two iterations: the in-degree of a node is the size of its dependency set,
  which is the original set without the emitted nodes; result and queue together hold
  no node twice and hold exactly the nodes whose dependency set is empty; and every
  emitted node comes after all of its original dependencies.
\<close>

definition invar :: "nat \<Rightarrow> graph \<Rightarrow> sort_state \<Rightarrow> bool" where
  "invar n deps st \<longleftrightarrow>
     (\<forall>k<n. in_degree st k = int (fcard (dependencies st k))) \<and>
     (\<forall>k<n. fset (dependencies st k) = fset (deps k) - set (result st)) \<and>
     distinct (result st @ queue st) \<and>
     set (result st @ queue st) \<subseteq> {..<n} \<and>
     (\<forall>k<n. dependencies st k = {||} \<longleftrightarrow> k \<in> set (result st @ queue st)) \<and>
     (\<forall>i<length (result st). fset (deps (result st ! i)) \<subseteq> set (take i (result st)))"


section \<open>Example inputs\<close>

text \<open>
  Three commits (a feature and its test in scope \<open>auth\<close>, and a docs commit), with the
  graph in which commits 1 and 2 depend on commit 0, and two graphs with a cycle:
  between commits 0 and 1, and between commits 1 and 2.
\<close>

definition scenario_B :: "commit list" where
  "scenario_B =
     [\<lparr>type = ''feat'', scope = Some ''auth'', subject = None, files = []\<rparr>,
      \<lparr>type = ''test'', scope = Some ''auth'', subject = None, files = []\<rparr>,
      \<lparr>type = ''docs'', scope = None, subject = Some ''document auth flow'', files = []\<rparr>]"

definition graph_B :: graph where
  "graph_B = (\<lambda>node. {||})(1 := {|0|}, 2 := {|0|})"

definition graph_D :: graph where
  "graph_D = (\<lambda>node. {||})(0 := {|1|}, 1 := {|0|})"

definition graph_E :: graph where
  "graph_E = (\<lambda>node. {||})(1 := {|2|}, 2 := {|1|})"

definition tie_commits :: "commit list" where
  "tie_commits =
     [\<lparr>type = ''feat'', scope = None, subject = None, files = []\<rparr>,
      \<lparr>type = ''docs'', scope = None, subject = None, files = []\<rparr>,
      \<lparr>type = ''docs'', scope = None, subject = None, files = []\<rparr>]"

definition tie_graph :: graph where
  "tie_graph = (\<lambda>node. {||})(1 := {|0|})"

text \<open>
  Two features whose files import each other, and a feature without scope next to a
  docs commit.
\<close>

definition mutual_imports :: "commit list" where
  "mutual_imports =
     [\<lparr>type = ''feat'', scope = Some ''a'', subject = None, files = [''a.py'']\<rparr>,
      \<lparr>type = ''feat'', scope = Some ''b'', subject = None, files = [''b.py'']\<rparr>]"

definition mutual_content :: "string \<Rightarrow> string" where
  "mutual_content file =
     (if file = ''a.py'' then ''import b'' else if file = ''b.py'' then ''import a'' else [])"

definition unscoped_feature :: "commit list" where
  "unscoped_feature =
     [\<lparr>type = ''feat'', scope = None, subject = Some ''add login'', files = [''src/login.py'']\<rparr>,
      \<lparr>type = ''docs'', scope = None, subject = Some ''document login'', files = [''README.md'']\<rparr>]"



text \<open>
  An implementation file and its test in one directory, and the git listing of two
  changed files in the top directory.
\<close>

definition scenario_A :: "string list" where
  "scenario_A = [''src/auth/login.ts'', ''src/auth/login.test.ts'']"


section \<open>Termination of the sorting loop\<close>

lemma relax_result [simp]: "result (relax node k st) = result st"
  by (simp add: relax_def Let_def)

lemma relax_pending:
  assumes "k < n"
  shows "pending n (relax node k st) \<le> pending n st"
proof (cases "node |\<in>| dependencies st k")
  case False
  then show ?thesis by (simp add: relax_def)
next
  case True
  let ?g = "dependencies st"
  let ?g' = "(dependencies st)(k := dependencies st k |-| {|node|})"
  have split: "\<And>h::graph. (\<Sum>i<n. fcard (h i)) = fcard (h k) + (\<Sum>i\<in>{..<n} - {k}. fcard (h i))"
    using assms by (simp add: sum.remove)
  have rest: "(\<Sum>i\<in>{..<n} - {k}. fcard (?g' i)) = (\<Sum>i\<in>{..<n} - {k}. fcard (?g i))"
    by (rule sum.cong) auto
  have "fcard (?g' k) < fcard (?g k)"
    using True fcard_fminus1_less [of node "?g k"] by simp
  then have "Suc (\<Sum>i<n. fcard (?g' i)) \<le> (\<Sum>i<n. fcard (?g i))"
    using split [of ?g] split [of ?g'] rest by linarith
  then show ?thesis
    using True by (simp add: relax_def Let_def pending_def)
qed

lemma fold_relax_pending:
  assumes "set ks \<subseteq> {..<n}"
  shows "pending n (fold (relax node) ks st) \<le> pending n st"
  using assms
proof (induction ks arbitrary: st)
  case Nil
  then show ?case by simp
next
  case (Cons k ks)
  then have "pending n (fold (relax node) ks (relax node k st)) \<le> pending n (relax node k st)"
    by simp
  also have "\<dots> \<le> pending n st"
    using Cons.prems by (simp add: relax_pending)
  finally show ?case by simp
qed

lemma sort_step_pending:
  assumes "queue st \<noteq> []"
  shows "pending (length commits) (sort_step commits st) < pending (length commits) st"
proof -
  let ?q = "sort_key (priority commits) (queue st)"
  let ?st = "st\<lparr>queue := tl ?q, result := result st @ [hd ?q]\<rparr>"
  have "pending (length commits) (sort_step commits st) \<le> pending (length commits) ?st"
    unfolding sort_step_def Let_def by (rule fold_relax_pending) auto
  also have "\<dots> < pending (length commits) st"
    using assms by (cases "queue st") (simp_all add: pending_def)
  finally show ?thesis .
qed

termination sort_loop
  by (relation "measure (\<lambda>(commits, st). pending (length commits) st)")
     (simp_all add: sort_step_pending)

declare sort_loop.simps [simp del]

section \<open>Properties of the topological sort\<close>

subsection \<open>The inner loop in closed form\<close>

lemma relax_relaxed: "relax node k (relaxed node k st) = relaxed node (Suc k) st"
  unfolding relax_def relaxed_def Let_def
  by (rule sort_state.equality) (auto simp: fun_eq_iff less_Suc_eq)

lemma fold_relax_upt: "fold (relax node) [0..<k] st = relaxed node k st"
proof (induction k)
  case 0
  show ?case by (simp add: relaxed_def)
next
  case (Suc k)
  have "fold (relax node) [0..<Suc k] st = relax node k (fold (relax node) [0..<k] st)"
    by simp
  then show ?case by (simp only: Suc relax_relaxed)
qed

subsection \<open>The loop invariant\<close>

lemma fcard_remove_int:
  "int (fcard (A |-| {|x|})) = (if x |\<in>| A then int (fcard A) - 1 else int (fcard A))"
proof (cases "x |\<in>| A")
  case True
  then have "Suc (fcard (A |-| {|x|})) = fcard A" by (rule fcard_Suc_fminus1)
  then show ?thesis using True by simp
next
  case False
  then show ?thesis by (simp add: fcard_fminus_fsingleton_if)
qed

lemma fcard_one_remove:
  assumes "x |\<in>| A"
  shows "int (fcard A) - 1 = 0 \<longleftrightarrow> A |-| {|x|} = {||}"
proof -
  have "int (fcard (A |-| {|x|})) = int (fcard A) - 1"
    using assms by (simp only: fcard_remove_int if_True)
  then have "int (fcard A) - 1 = 0 \<longleftrightarrow> fcard (A |-| {|x|}) = 0"
    by linarith
  then show ?thesis by (simp only: fcard_0_eq)
qed

lemma invar_initial: "invar (length commits) deps (initial_state commits deps)"
  by (auto simp: invar_def initial_state_def Let_def)

lemma sort_key_hd_tl:
  assumes "xs \<noteq> []" "distinct xs"
  shows "hd (sort_key f xs) \<in> set xs"
    and "set (tl (sort_key f xs)) = set xs - {hd (sort_key f xs)}"
    and "distinct (tl (sort_key f xs))"
proof -
  obtain y ys where s: "sort_key f xs = y # ys"
    using assms(1) by (cases "sort_key f xs") (auto dest: arg_cong [where f = length])
  have "set (y # ys) = set xs" "distinct (y # ys)"
    using assms(2) by (simp_all flip: s)
  then show "hd (sort_key f xs) \<in> set xs"
    and "set (tl (sort_key f xs)) = set xs - {hd (sort_key f xs)}"
    and "distinct (tl (sort_key f xs))"
    by (auto simp: s)
qed


lemma invar_step:
  assumes inv: "invar (length commits) deps st" and ne: "queue st \<noteq> []"
  shows "invar (length commits) deps (sort_step commits st)"
proof -
  let ?n = "length commits"
  let ?q = "sort_key (priority commits) (queue st)"
  let ?node = "hd ?q"
  let ?mid = "st\<lparr>queue := tl ?q, result := result st @ [?node]\<rparr>"
  let ?new = "filter (\<lambda>k. ?node |\<in>| dependencies st k \<and> in_degree st k - 1 = 0) [0..<?n]"
  let ?st' = "sort_step commits st"
  have step: "?st' = relaxed ?node ?n ?mid"
    by (simp add: sort_step_def Let_def fold_relax_upt)
  from inv have deg: "\<And>k. k < ?n \<Longrightarrow> in_degree st k = int (fcard (dependencies st k))"
    and cur: "\<And>k. k < ?n \<Longrightarrow> fset (dependencies st k) = fset (deps k) - set (result st)"
    and dist: "distinct (result st @ queue st)"
    and sub: "set (result st @ queue st) \<subseteq> {..<?n}"
    and done_iff: "\<And>k. k < ?n \<Longrightarrow> dependencies st k = {||} \<longleftrightarrow> k \<in> set (result st @ queue st)"
    and ord: "\<And>i. i < length (result st) \<Longrightarrow> fset (deps (result st ! i)) \<subseteq> set (take i (result st))"
    by (auto simp: invar_def)
  have dq: "distinct (queue st)" using dist by simp
  have node_in: "?node \<in> set (queue st)"
    and tl_set: "set (tl ?q) = set (queue st) - {?node}"
    and tl_dist: "distinct (tl ?q)"
    using sort_key_hd_tl [OF ne dq] by blast+
  have node_lt: "?node < ?n" using node_in sub by auto
  have node_done: "dependencies st ?node = {||}"
    using done_iff [OF node_lt] node_in by simp
  have node_fresh: "?node \<notin> set (result st)" using node_in dist by auto
  have res': "result ?st' = result st @ [?node]"
    by (simp add: step relaxed_def)
  have que': "queue ?st' = tl ?q @ ?new"
    by (simp add: step relaxed_def)
  have deps': "\<And>k. k < ?n \<Longrightarrow> dependencies ?st' k = dependencies st k |-| {|?node|}"
    by (simp add: step relaxed_def)
  have deg': "\<And>k. k < ?n \<Longrightarrow> in_degree ?st' k =
      (if ?node |\<in>| dependencies st k then in_degree st k - 1 else in_degree st k)"
    by (simp add: step relaxed_def)
  have new_iff: "\<And>k. k \<in> set ?new \<longleftrightarrow>
      k < ?n \<and> ?node |\<in>| dependencies st k \<and> dependencies st k |-| {|?node|} = {||}"
  proof -
    fix k
    show "k \<in> set ?new \<longleftrightarrow>
      k < ?n \<and> ?node |\<in>| dependencies st k \<and> dependencies st k |-| {|?node|} = {||}"
    proof (cases "k < ?n \<and> ?node |\<in>| dependencies st k")
      case True
      then have "in_degree st k - 1 = 0 \<longleftrightarrow> dependencies st k |-| {|?node|} = {||}"
        using fcard_one_remove [of ?node "dependencies st k"] deg [of k] by (simp only:)
      then show ?thesis using True by simp
    next
      case False
      then show ?thesis by auto
    qed
  qed
  have new_fresh: "\<And>k. k \<in> set ?new \<Longrightarrow> k \<notin> set (result st @ queue st)"
    using new_iff done_iff by auto
  have a: "\<forall>k<?n. in_degree ?st' k = int (fcard (dependencies ?st' k))"
    using deg by (simp add: deps' deg' fcard_remove_int)
  have b: "\<forall>k<?n. fset (dependencies ?st' k) = fset (deps k) - set (result ?st')"
    using cur by (auto simp: deps' res')
  have c: "distinct (result ?st' @ queue ?st')"
  proof -
    have "?node \<notin> set (tl ?q)" "set (result st) \<inter> set (tl ?q) = {}"
      using tl_set dist by auto
    moreover have "?node \<notin> set ?new" "set (result st) \<inter> set ?new = {}"
      "set (tl ?q) \<inter> set ?new = {}"
      using new_fresh node_in tl_set by (auto simp del: set_filter)
    moreover have "distinct ?new" "distinct (result st)"
      using dist by simp_all
    ultimately show ?thesis
      using tl_dist node_fresh unfolding res' que'
      by (simp del: set_filter distinct_filter filter_append add: Int_Un_distrib)
  qed
  have d: "set (result ?st' @ queue ?st') \<subseteq> {..<?n}"
    using sub tl_set node_lt by (auto simp: res' que')
  have members: "set (result ?st' @ queue ?st') = set (result st @ queue st) \<union> set ?new"
    using node_in tl_set by (auto simp: res' que')
  have e: "\<forall>k<?n. dependencies ?st' k = {||} \<longleftrightarrow> k \<in> set (result ?st' @ queue ?st')"
  proof (intro allI impI)
    fix k assume k: "k < ?n"
    show "dependencies ?st' k = {||} \<longleftrightarrow> k \<in> set (result ?st' @ queue ?st')"
    proof (cases "dependencies st k = {||}")
      case True
      then have "k \<in> set (result st @ queue st)" using done_iff [OF k] by simp
      then have "k \<in> set (result ?st' @ queue ?st')"
        unfolding members by blast
      then show ?thesis using True k by (simp add: deps')
    next
      case False
      then have "k \<notin> set (result st @ queue st)" using done_iff [OF k] by simp
      moreover have "dependencies st k |-| {|?node|} = {||} \<longleftrightarrow> k \<in> set ?new"
        using False k new_iff [of k] by auto
      ultimately have "dependencies st k |-| {|?node|} = {||} \<longleftrightarrow>
          k \<in> set (result ?st' @ queue ?st')"
        unfolding members by blast
      then show ?thesis using k by (simp only: deps')
    qed
  qed
  have f: "\<forall>i<length (result ?st'). fset (deps (result ?st' ! i)) \<subseteq> set (take i (result ?st'))"
  proof (intro allI impI)
    fix i assume i: "i < length (result ?st')"
    show "fset (deps (result ?st' ! i)) \<subseteq> set (take i (result ?st'))"
    proof (cases "i < length (result st)")
      case True
      then show ?thesis using ord [OF True] by (simp add: res' nth_append)
    next
      case False
      then have "i = length (result st)" using i by (simp add: res')
      moreover have "fset (deps ?node) \<subseteq> set (result st)"
        using cur [OF node_lt] node_done by auto
      ultimately show ?thesis by (simp add: res' nth_append)
    qed
  qed
  show ?thesis
    unfolding invar_def using a b c d e f by blast
qed

lemma sort_loop_invar:
  "invar (length commits) deps st \<Longrightarrow> invar (length commits) deps (sort_loop commits st)"
proof (induction commits st rule: sort_loop.induct)
  case (1 commits st)
  show ?case
  proof (cases "queue st = []")
    case True
    then show ?thesis using "1.prems" by (simp add: sort_loop.simps)
  next
    case False
    then have "invar (length commits) deps (sort_loop commits (sort_step commits st))"
      using "1.IH" "1.prems" invar_step by blast
    then show ?thesis using False by (simp add: sort_loop.simps [of commits st])
  qed
qed

lemma sort_loop_queue: "queue (sort_loop commits st) = []"
proof (induction commits st rule: sort_loop.induct)
  case (1 commits st)
  then show ?case by (cases "queue st = []") (simp_all add: sort_loop.simps [of commits st])
qed


subsection \<open>What the loop leaves behind\<close>

lemma final_invar: "invar (length commits) deps (final_state commits deps)"
  unfolding final_state_def by (rule sort_loop_invar) (rule invar_initial)

lemma final_queue: "queue (final_state commits deps) = []"
  unfolding final_state_def by (rule sort_loop_queue)

lemma topological_sort_Inr:
  "topological_sort commits deps = Inr (res, g) \<longleftrightarrow>
     length (result (final_state commits deps)) = length commits \<and>
     res = result (final_state commits deps) \<and> g = dependencies (final_state commits deps)"
  by (auto simp: topological_sort_def Let_def)

lemma topological_sort_Inl:
  "topological_sort commits deps = Inl e \<longleftrightarrow>
     length (result (final_state commits deps)) \<noteq> length commits \<and> e = CircularDependency"
  by (auto simp: topological_sort_def Let_def)

lemma full_result:
  assumes "distinct xs" "set xs \<subseteq> {..<n}"
  shows "length xs = n \<longleftrightarrow> set xs = {..<n}"
proof
  assume "length xs = n"
  then have "card (set xs) = card {..<n}" using assms(1) by (simp add: distinct_card)
  then show "set xs = {..<n}" using assms(2) by (simp add: card_subset_eq)
next
  assume "set xs = {..<n}"
  then have "card (set xs) = n" by simp
  then show "length xs = n" using assms(1) by (simp add: distinct_card)
qed

lemma final_result_facts:
  shows final_distinct: "distinct (result (final_state commits deps))"
    and final_subset: "set (result (final_state commits deps)) \<subseteq> {..<length commits}"
  using final_invar [of commits deps] by (simp_all add: invar_def)

lemma sorted_before:
  assumes ok: "topological_sort commits deps = Inr (res, g)"
    and e: "(p, d) \<in> edges (length commits) deps"
  shows "\<exists>i j. i < j \<and> j < length res \<and> res ! i = p \<and> res ! j = d"
proof -
  let ?st = "final_state commits deps"
  have ord: "res = result ?st" and len: "length (result ?st) = length commits"
    using ok by (simp_all add: topological_sort_Inr)
  have d: "d < length commits" and p: "p |\<in>| deps d"
    using e by (simp_all add: edges_def)
  have "set (result ?st) = {..<length commits}"
    using len full_result [OF final_distinct final_subset] by blast
  then have "d \<in> set (result ?st)" using d by simp
  then obtain j where j: "j < length (result ?st)" "result ?st ! j = d"
    by (auto simp: in_set_conv_nth)
  have "fset (deps (result ?st ! j)) \<subseteq> set (take j (result ?st))"
    using final_invar [of commits deps] j(1) by (simp add: invar_def)
  then have "p \<in> set (take j (result ?st))" using p j(2) by auto
  then obtain i where "i < j" "result ?st ! i = p"
    using j(1) by (auto simp: in_set_conv_nth)
  then show ?thesis using j ord by blast
qed

lemma sorted_acyclic:
  assumes ok: "topological_sort commits deps = Inr (res, g)"
  shows "acyclic (edges (length commits) deps)"
proof -
  let ?pos = "\<lambda>x. LEAST i. res ! i = x"
  have dist: "distinct res"
    using ok final_distinct by (simp add: topological_sort_Inr)
  have pos: "?pos (res ! i) = i" if "i < length res" for i
  proof -
    have "?pos (res ! i) \<le> i" by (rule Least_le) simp
    moreover have "res ! ?pos (res ! i) = res ! i" by (rule LeastI) simp
    ultimately show ?thesis using that dist by (simp add: nth_eq_iff_index_eq)
  qed
  have "edges (length commits) deps \<subseteq> inv_image less_than ?pos"
  proof
    fix e assume e: "e \<in> edges (length commits) deps"
    obtain p d where pd: "e = (p, d)" by (cases e)
    obtain i j where "i < j" "j < length res" "res ! i = p" "res ! j = d"
      using sorted_before [OF ok] e pd by blast
    then have "?pos p < ?pos d" using pos [of i] pos [of j] by simp
    then show "e \<in> inv_image less_than ?pos" by (simp add: pd)
  qed
  moreover have "acyclic (inv_image less_than ?pos)"
    by (rule wf_acyclic) (rule wf_inv_image, rule wf_less_than)
  ultimately show ?thesis by (rule acyclic_subset [rotated])
qed

lemma acyclic_sorted:
  assumes wf_edges: "\<forall>d<length commits. \<forall>p. p |\<in>| deps d \<longrightarrow> p < length commits"
    and acyc: "acyclic (edges (length commits) deps)"
  shows "length (result (final_state commits deps)) = length commits"
proof -
  let ?n = "length commits"
  let ?st = "final_state commits deps"
  let ?U = "{..<?n} - set (result ?st)"
  have inv: "invar ?n deps ?st" by (rule final_invar)
  have "edges ?n deps \<subseteq> {..<?n} \<times> {..<?n}"
    using wf_edges by (auto simp: edges_def)
  then have "finite (edges ?n deps)" by (rule finite_subset) simp
  then have wf: "wf (edges ?n deps)" using acyc by (rule finite_acyclic_wf)
  have pred: "\<exists>p\<in>?U. (p, k) \<in> edges ?n deps" if "k \<in> ?U" for k
  proof -
    have k: "k < ?n" "k \<notin> set (result ?st @ queue ?st)"
      using that by (simp_all add: final_queue)
    then have "dependencies ?st k \<noteq> {||}" using inv by (simp add: invar_def)
    then obtain p where "p |\<in>| dependencies ?st k" by auto
    moreover have "fset (dependencies ?st k) = fset (deps k) - set (result ?st)"
      using inv k(1) by (simp add: invar_def)
    ultimately have "p |\<in>| deps k" "p \<notin> set (result ?st)" by auto
    then show ?thesis using wf_edges k(1) by (auto simp: edges_def)
  qed
  have "?U = {}"
  proof (rule ccontr)
    assume "?U \<noteq> {}"
    then obtain x where "x \<in> ?U" by blast
    with wf obtain z where "z \<in> ?U" "\<And>y. (y, z) \<in> edges ?n deps \<Longrightarrow> y \<notin> ?U"
      by (rule wfE_min) blast
    then show False using pred by blast
  qed
  then have "set (result ?st) = {..<?n}" using final_subset [of commits deps] by blast
  then show ?thesis using full_result [OF final_distinct final_subset] by blast
qed

lemma final_graph_empty:
  assumes "length (result (final_state commits deps)) = length commits" "node < length commits"
  shows "dependencies (final_state commits deps) node = {||}"
proof -
  have "set (result (final_state commits deps)) = {..<length commits}"
    using assms(1) full_result [OF final_distinct final_subset] by blast
  then show ?thesis
    using final_invar [of commits deps] assms(2) by (simp add: invar_def)
qed


subsection \<open>Ties in the ready queue\<close>

lemma reachable_invar: "reachable commits deps st \<Longrightarrow> invar (length commits) deps st"
  by (induction rule: reachable.induct) (simp_all add: invar_initial invar_step)

lemma reachable_final:
  "reachable commits deps st \<Longrightarrow> sort_loop commits st = final_state commits deps"
proof (induction rule: reachable.induct)
  case start
  show ?case by (simp add: final_state_def)
next
  case (step st)
  then show ?case by (simp add: sort_loop.simps [of commits st])
qed

lemma sort_step_result:
  "result (sort_step commits st) = result st @ [hd (sort_key (priority commits) (queue st))]"
  by (simp add: sort_step_def Let_def fold_relax_upt relaxed_def)

lemma sort_step_queue:
  "\<exists>new. queue (sort_step commits st) = tl (sort_key (priority commits) (queue st)) @ new"
  by (simp add: sort_step_def Let_def fold_relax_upt relaxed_def)

lemma sort_loop_appends:
  "\<exists>rest. result (sort_loop commits st) = result st @ rest \<and> set (queue st) \<subseteq> set rest"
proof (induction commits st rule: sort_loop.induct)
  case (1 commits st)
  show ?case
  proof (cases "queue st = []")
    case True
    then show ?thesis by (simp add: sort_loop.simps [of commits st])
  next
    case False
    let ?q = "sort_key (priority commits) (queue st)"
    from False have q: "?q = hd ?q # tl ?q"
      by (cases ?q) (auto dest: arg_cong [where f = length])
    obtain new where new: "queue (sort_step commits st) = tl ?q @ new"
      using sort_step_queue by blast
    obtain rest where rest:
      "result (sort_loop commits (sort_step commits st)) = result (sort_step commits st) @ rest"
      "set (queue (sort_step commits st)) \<subseteq> set rest"
      using "1.IH" [OF False] by blast
    have "set (queue st) = set ?q" by simp
    also have "\<dots> = insert (hd ?q) (set (tl ?q))" by (subst q) simp
    finally have "set (queue st) \<subseteq> set (hd ?q # rest)"
      using rest(2) new by auto
    moreover have "result (sort_loop commits st) = result st @ hd ?q # rest"
      using False rest(1) by (simp add: sort_loop.simps [of commits st] sort_step_result)
    ultimately show ?thesis by blast
  qed
qed

lemma subseq_sort_key:
  assumes "subseq [a, b] xs" "f a = f b"
  shows "subseq [a, b] (sort_key f xs)"
proof -
  have "subseq (filter (\<lambda>y. f y = f a) [a, b]) (filter (\<lambda>y. f y = f a) xs)"
    using assms(1) by (rule subseq_filter)
  then have "subseq [a, b] (filter (\<lambda>y. f y = f a) (sort_key f xs))"
    using assms(2) by (simp add: sort_key_stable)
  then show ?thesis
    using subseq_filter_left subseq_order.order_trans by blast
qed

lemma ties_keep_order:
  assumes "subseq [a, b] (queue st)" "priority commits a = priority commits b"
  shows "subseq [a, b] (result (sort_loop commits st))"
  using assms
proof (induction commits st rule: sort_loop.induct)
  case (1 commits st)
  from "1.prems"(1) have ne: "queue st \<noteq> []" by auto
  let ?q = "sort_key (priority commits) (queue st)"
  let ?st' = "sort_step commits st"
  from ne have q: "?q = hd ?q # tl ?q"
    by (cases ?q) (auto dest: arg_cong [where f = length])
  have sq: "subseq [a, b] ?q" using "1.prems" by (rule subseq_sort_key)
  obtain new where new: "queue ?st' = tl ?q @ new"
    using sort_step_queue by blast
  obtain rest where rest:
    "result (sort_loop commits ?st') = result ?st' @ rest" "set (queue ?st') \<subseteq> set rest"
    using sort_loop_appends by blast
  have unfold: "sort_loop commits st = sort_loop commits ?st'"
    using ne by (simp add: sort_loop.simps [of commits st])
  show ?case
  proof (cases "subseq [a, b] (tl ?q)")
    case True
    moreover have "subseq (tl ?q) (tl ?q @ new)"
      by (rule prefix_imp_subseq) simp
    ultimately have "subseq [a, b] (queue ?st')"
      unfolding new by (rule subseq_order.order_trans)
    then show ?thesis using "1.IH" [OF ne] "1.prems"(2) unfold by simp
  next
    case False
    have "subseq [a, b] (hd ?q # tl ?q)" using sq q by simp
    then have a: "a = hd ?q" and b: "b \<in> set (tl ?q)"
      using False by (auto simp: subseq_Cons' subseq_singleton_left split: if_splits)
    have "b \<in> set rest" using b rest(2) new by auto
    then have "subseq [b] rest" by (simp add: subseq_singleton_left)
    then have "subseq ([a] @ [b]) ((result st @ [a]) @ rest)"
      by (intro list_emb_append_mono) auto
    then show ?thesis using unfold rest(1) a by (simp add: sort_step_result)
  qed
qed

lemma subseq_pair_index:
  assumes "subseq [a, b] xs" "distinct xs"
  shows "a \<in> set xs \<and> b \<in> set xs \<and> index xs a < index xs b"
proof -
  obtain us vs where xs: "xs = us @ a # vs" and "subseq [b] vs"
    using assms(1) by (auto dest!: list_emb_ConsD)
  then have bv: "b \<in> set vs" by (simp add: subseq_singleton_left)
  have fresh: "\<And>x. x \<in> set us \<Longrightarrow> x \<noteq> a" "\<And>x. x \<in> set us \<Longrightarrow> x \<noteq> b" "a \<noteq> b"
    using assms(2) bv unfolding xs by auto
  have "takeWhile (\<lambda>y. y \<noteq> a) (us @ a # vs) = us"
    using fresh(1) by (simp add: takeWhile_append2)
  moreover have "takeWhile (\<lambda>y. y \<noteq> b) (us @ a # vs) = us @ a # takeWhile (\<lambda>y. y \<noteq> b) vs"
    using fresh(2,3) by (simp add: takeWhile_append2)
  ultimately have "index xs a = length us" "index xs b > length us"
    unfolding xs index_def by simp_all
  then show ?thesis using bv by (simp add: xs)
qed

lemma nth_pair_subseq:
  assumes "i < j" "j < length xs"
  shows "subseq [xs ! i, xs ! j] xs"
proof -
  have "xs = take i xs @ xs ! i # drop (Suc i) xs"
    using assms by (simp add: id_take_nth_drop)
  moreover have "drop (Suc i) xs ! (j - Suc i) = xs ! j" "j - Suc i < length (drop (Suc i) xs)"
    using assms by simp_all
  then have "xs ! j \<in> set (drop (Suc i) xs)"
    using nth_mem by metis
  then have "subseq [xs ! j] (drop (Suc i) xs)" by (simp add: subseq_singleton_left)
  then have "subseq ([] @ [xs ! i] @ [xs ! j]) (take i xs @ [xs ! i] @ drop (Suc i) xs)"
    by (intro list_emb_append_mono) auto
  ultimately show ?thesis by simp
qed

subsection \<open>Facts about the example inputs\<close>

lemma tie_queue: "queue (sort_step tie_commits (initial_state tie_commits tie_graph)) = [2, 1]"
  by code_simp

lemma length_scenario_B: "length scenario_B = 3"
  by (simp add: scenario_B_def)

lemma graph_B_forward: "(p, d) \<in> edges n graph_B \<Longrightarrow> p < d"
  by (auto simp: edges_def graph_B_def split: if_splits)

lemma graph_B_acyclic: "acyclic (edges n graph_B)"
proof (rule acyclic_subset)
  show "acyclic less_than" by (rule wf_acyclic) (rule wf_less_than)
  show "edges n graph_B \<subseteq> less_than" using graph_B_forward by auto
qed

lemma graph_B_closed: "\<forall>d<length scenario_B. \<forall>p. p |\<in>| graph_B d \<longrightarrow> p < length scenario_B"
  by (auto simp: graph_B_def length_scenario_B split: if_splits)

lemma graph_D_cyclic: "\<not> acyclic (edges (length scenario_B) graph_D)"
proof -
  have "(0, 1) \<in> edges (length scenario_B) graph_D" "(1, 0) \<in> edges (length scenario_B) graph_D"
    by (simp_all add: edges_def graph_D_def length_scenario_B)
  then have "(0, 0) \<in> (edges (length scenario_B) graph_D)\<^sup>+"
    by (rule trancl_trans [OF r_into_trancl r_into_trancl])
  then show ?thesis by (auto simp: acyclic_def)
qed

lemma final_B: "result (final_state scenario_B graph_B) = [0, 1, 2]"
  by code_simp

lemma final_D: "result (final_state scenario_B graph_D) = [2]"
  by code_simp

lemma final_E: "result (final_state scenario_B graph_E) = [0]"
  by code_simp

section \<open>The claims about the sequencer\<close>

text \<open>
  C1. For every list of commits and every acyclic graph whose edges stay among the
  indices \<open>0..N-1\<close>, \<open>topological_sort\<close> returns: the loop ends, the cycle check passes,
  the returned order holds every index \<open>0..N-1\<close> exactly once, and for every edge
  \<open>(p, d)\<close> the position of \<open>p\<close> in the order is strictly before the position of \<open>d\<close>.
\<close>

theorem topological_sort_total_order:
  assumes "\<forall>d<length commits. \<forall>p. p |\<in>| deps d \<longrightarrow> p < length commits"
    and "acyclic (edges (length commits) deps)"
  shows "\<exists>res g. topological_sort commits deps = Inr (res, g) \<and>
           distinct res \<and> set res = {..<length commits} \<and>
           (\<forall>(p, d) \<in> edges (length commits) deps.
              \<exists>i j. i < j \<and> j < length res \<and> res ! i = p \<and> res ! j = d)"
proof -
  let ?st = "final_state commits deps"
  have len: "length (result ?st) = length commits"
    using assms by (rule acyclic_sorted)
  then have ok: "topological_sort commits deps = Inr (result ?st, dependencies ?st)"
    by (simp add: topological_sort_Inr)
  have "set (result ?st) = {..<length commits}"
    using len full_result [OF final_distinct final_subset] by blast
  then show ?thesis
    using ok final_distinct [of commits deps] sorted_before [OF ok] by blast
qed

theorem topological_sort_total_order_witness:
  "acyclic (edges (length scenario_B) graph_B) \<and>
   (\<exists>res g. topological_sort scenario_B graph_B = Inr (res, g) \<and>
      distinct res \<and> set res = {..<length scenario_B} \<and>
      (\<forall>(p, d) \<in> edges (length scenario_B) graph_B.
         \<exists>i j. i < j \<and> j < length res \<and> res ! i = p \<and> res ! j = d))"
  using graph_B_closed graph_B_acyclic [of "length scenario_B"]
    topological_sort_total_order [OF graph_B_closed graph_B_acyclic]
  by blast

text \<open>
  C2, as the code has it. For every graph with a cycle among the commits,
  \<open>topological_sort\<close> ends in the fatal exit and returns no order. The exit carries
  the fixed message only: the indices left without a position are not reported.
\<close>

theorem topological_sort_cycle_fails:
  assumes "\<not> acyclic (edges (length commits) deps)"
  shows "topological_sort commits deps = Inl CircularDependency"
proof (cases "topological_sort commits deps")
  case (Inl e)
  then show ?thesis by (simp add: topological_sort_Inl)
next
  case (Inr r)
  then have "acyclic (edges (length commits) deps)"
    using sorted_acyclic [of commits deps "fst r" "snd r"] by simp
  then show ?thesis using assms by simp
qed

theorem topological_sort_cycle_fails_witness:
  "\<not> acyclic (edges (length scenario_B) graph_D) \<and>
   topological_sort scenario_B graph_D = Inl CircularDependency"
  using graph_D_cyclic topological_sort_cycle_fails [OF graph_D_cyclic] by simp

text \<open>
  C2, as the claim has it, fails: the cycle between commits 0 and 1 and the cycle
  between commits 1 and 2 leave different sets of indices without a position, and the
  caller gets the same failure for both.
\<close>

theorem cycle_report_counterexample:
  "topological_sort scenario_B graph_D = Inl CircularDependency \<and>
   topological_sort scenario_B graph_E = Inl CircularDependency \<and>
   unassigned scenario_B graph_D = [0, 1] \<and>
   unassigned scenario_B graph_E = [1, 2]"
proof -
  have "unassigned scenario_B graph_D = [0, 1]" "unassigned scenario_B graph_E = [1, 2]"
    by code_simp+
  then show ?thesis
    by (simp add: topological_sort_def final_D final_E length_scenario_B)
qed

text \<open>
  C10. \<open>topological_sort\<close> works on the caller's graph object: when it returns an
  order, the dependency set of every node \<open>0..N-1\<close> in that object is empty, whatever
  it held before the call.
\<close>

theorem topological_sort_empties_graph:
  assumes "topological_sort commits deps = Inr (res, g)"
  shows "\<forall>node<length commits. g node = {||}"
  using assms final_graph_empty [of commits deps] by (simp add: topological_sort_Inr)

theorem topological_sort_empties_graph_witness:
  "topological_sort scenario_B graph_B =
     Inr ([0, 1, 2], dependencies (final_state scenario_B graph_B)) \<and>
   graph_B 1 = {|0|} \<and>
   dependencies (final_state scenario_B graph_B) 0 = {||} \<and>
   dependencies (final_state scenario_B graph_B) 1 = {||} \<and>
   dependencies (final_state scenario_B graph_B) 2 = {||}"
proof -
  have ok: "topological_sort scenario_B graph_B =
      Inr ([0, 1, 2], dependencies (final_state scenario_B graph_B))"
    by (simp add: topological_sort_def final_B length_scenario_B)
  show ?thesis
    using ok topological_sort_empties_graph [OF ok]
    by (simp add: graph_B_def length_scenario_B)
qed


text \<open>
  C3, as the code has it. The queue is sorted by priority alone, with a stable sort, so
  a tie goes to the descriptor that stands earlier in the ready queue: whenever two
  descriptors are in the queue together with equal priority, the one nearer the front
  is emitted first. A descriptor that became ready later stands behind the ones that
  were ready before, whatever its index.
\<close>

theorem equal_priority_queue_order:
  assumes "reachable commits deps st"
    and "i < j" "j < length (queue st)"
    and "priority commits (queue st ! i) = priority commits (queue st ! j)"
  shows "queue st ! i \<in> set (result (final_state commits deps)) \<and>
         queue st ! j \<in> set (result (final_state commits deps)) \<and>
         index (result (final_state commits deps)) (queue st ! i)
           < index (result (final_state commits deps)) (queue st ! j)"
proof -
  have "subseq [queue st ! i, queue st ! j] (queue st)"
    using assms(2,3) by (rule nth_pair_subseq)
  then have "subseq [queue st ! i, queue st ! j] (result (sort_loop commits st))"
    using assms(4) by (rule ties_keep_order)
  then have "subseq [queue st ! i, queue st ! j] (result (final_state commits deps))"
    using assms(1) by (simp add: reachable_final)
  then show ?thesis using final_distinct by (rule subseq_pair_index)
qed


text \<open>
  A feature and two docs commits, the first docs commit depending on the feature. After
  the feature is emitted the queue holds commit 2 and then commit 1, both of priority 6.
\<close>

theorem equal_priority_queue_order_witness:
  "queue (sort_step tie_commits (initial_state tie_commits tie_graph)) = [2, 1] \<and>
   priority tie_commits 2 = priority tie_commits 1 \<and>
   2 \<in> set (result (final_state tie_commits tie_graph)) \<and>
   1 \<in> set (result (final_state tie_commits tie_graph)) \<and>
   index (result (final_state tie_commits tie_graph)) 2
     < index (result (final_state tie_commits tie_graph)) 1"
proof -
  let ?st = "sort_step tie_commits (initial_state tie_commits tie_graph)"
  have q: "queue ?st = [2, 1]" by (rule tie_queue)
  have "queue (initial_state tie_commits tie_graph) \<noteq> []" by code_simp
  then have r: "reachable tie_commits tie_graph ?st"
    by (rule reachable.step [OF reachable.start])
  have p: "priority tie_commits (queue ?st ! 0) = priority tie_commits (queue ?st ! 1)"
    unfolding q by code_simp
  show ?thesis
    using equal_priority_queue_order [OF r _ _ p] p by (simp add: q)
qed

text \<open>
  C3, as the claim has it, fails on the same input: commits 1 and 2 are ready together
  with equal priority, and commit 2 is emitted before commit 1.
\<close>

theorem smaller_index_first_counterexample:
  "queue (sort_step tie_commits (initial_state tie_commits tie_graph)) = [2, 1] \<and>
   priority tie_commits 1 = priority tie_commits 2 \<and>
   result (final_state tie_commits tie_graph) = [0, 2, 1]"
proof -
  have "priority tie_commits 1 = priority tie_commits 2" by code_simp
  moreover have "result (final_state tie_commits tie_graph) = [0, 2, 1]" by code_simp
  ultimately show ?thesis using tie_queue by simp
qed

section \<open>The claims about the graph builder\<close>

subsection \<open>The edges that the loops record\<close>

lemma build_loop_edges:
  assumes "\<forall>(i, j) \<in> set pairs. i \<noteq> j \<longrightarrow>
             (\<exists>b. detect_dependencies content (commits ! i) (commits ! j) = Inr b)"
  shows "\<exists>g. build_loop content commits pairs g0 = Inr g \<and>
           (\<forall>i j. i |\<in>| g j \<longleftrightarrow>
              i |\<in>| g0 j \<or>
              ((i, j) \<in> set pairs \<and> i \<noteq> j \<and>
               detect_dependencies content (commits ! i) (commits ! j) = Inr True))"
  using assms
proof (induction pairs arbitrary: g0)
  case Nil
  then show ?case by simp
next
  case (Cons pr pairs)
  obtain i j where pr: "pr = (i, j)" by (cases pr)
  have rest: "\<forall>(i, j) \<in> set pairs. i \<noteq> j \<longrightarrow>
      (\<exists>b. detect_dependencies content (commits ! i) (commits ! j) = Inr b)"
    using Cons.prems by auto
  show ?case
  proof (cases "i \<noteq> j \<and> detect_dependencies content (commits ! i) (commits ! j) = Inr True")
    case True
    obtain g where "build_loop content commits pairs (g0(j := finsert i (g0 j))) = Inr g"
      and "\<forall>i' j'. i' |\<in>| g j' \<longleftrightarrow>
              i' |\<in>| (g0(j := finsert i (g0 j))) j' \<or>
              ((i', j') \<in> set pairs \<and> i' \<noteq> j' \<and>
               detect_dependencies content (commits ! i') (commits ! j') = Inr True)"
      using Cons.IH [OF rest] by blast
    then show ?thesis using True by (auto simp: pr)
  next
    case False
    obtain g where g: "build_loop content commits pairs g0 = Inr g"
      and "\<forall>i' j'. i' |\<in>| g j' \<longleftrightarrow>
              i' |\<in>| g0 j' \<or>
              ((i', j') \<in> set pairs \<and> i' \<noteq> j' \<and>
               detect_dependencies content (commits ! i') (commits ! j') = Inr True)"
      using Cons.IH [OF rest] by blast
    moreover have "build_loop content commits (pr # pairs) g0 = build_loop content commits pairs g0"
    proof (cases "i = j")
      case True
      then show ?thesis by (simp add: pr)
    next
      case ne: False
      then obtain b where "detect_dependencies content (commits ! i) (commits ! j) = Inr b"
        using Cons.prems by (auto simp: pr)
      then show ?thesis using False ne by (cases b) (simp_all add: pr)
    qed
    ultimately show ?thesis using False by (auto simp: pr)
  qed
qed

lemma mutual_detect:
  "detect_dependencies mutual_content (mutual_imports ! 0) (mutual_imports ! 1) = Inr True"
  "detect_dependencies mutual_content (mutual_imports ! 1) (mutual_imports ! 0) = Inr True"
  by code_simp+

text \<open>
  C4, as the code has it. \<open>build_dependency_graph\<close> has no contradiction check and no
  failure of that kind: when no pair of commits raises, it returns, and for every pair
  \<open>i \<noteq> j\<close> the returned graph records that \<open>j\<close> depends on \<open>i\<close> exactly when
  \<open>detect_dependencies\<close> says so. A pair with a dependency in both directions has both
  edges in the result.
\<close>

theorem build_keeps_every_derived_edge:
  assumes "\<forall>i<length commits. \<forall>j<length commits. i \<noteq> j \<longrightarrow>
             (\<exists>b. detect_dependencies content (commits ! i) (commits ! j) = Inr b)"
  shows "\<exists>g. build_dependency_graph content commits = Inr g \<and>
           (\<forall>i<length commits. \<forall>j<length commits. i \<noteq> j \<longrightarrow>
              (i |\<in>| g j \<longleftrightarrow>
               detect_dependencies content (commits ! i) (commits ! j) = Inr True))"
proof -
  let ?pairs = "List.product [0..<length commits] [0..<length commits]"
  have "\<forall>(i, j) \<in> set ?pairs. i \<noteq> j \<longrightarrow>
      (\<exists>b. detect_dependencies content (commits ! i) (commits ! j) = Inr b)"
    using assms by auto
  from build_loop_edges [OF this, of "\<lambda>node. {||}"]
  show ?thesis unfolding build_dependency_graph_def by auto
qed

theorem build_keeps_every_derived_edge_witness:
  "detect_dependencies mutual_content (mutual_imports ! 0) (mutual_imports ! 1) = Inr True \<and>
   detect_dependencies mutual_content (mutual_imports ! 1) (mutual_imports ! 0) = Inr True \<and>
   (\<exists>g. build_dependency_graph mutual_content mutual_imports = Inr g \<and>
        0 |\<in>| g 1 \<and> 1 |\<in>| g 0)"
proof -
  have len: "length mutual_imports = 2" by (simp add: mutual_imports_def)
  have no_raise: "\<forall>i<length mutual_imports. \<forall>j<length mutual_imports. i \<noteq> j \<longrightarrow>
      (\<exists>b. detect_dependencies mutual_content (mutual_imports ! i) (mutual_imports ! j) = Inr b)"
    using mutual_detect by (auto simp: len less_Suc_eq numeral_2_eq_2)
  obtain g where "build_dependency_graph mutual_content mutual_imports = Inr g"
    and "\<forall>i<length mutual_imports. \<forall>j<length mutual_imports. i \<noteq> j \<longrightarrow>
      (i |\<in>| g j \<longleftrightarrow>
       detect_dependencies mutual_content (mutual_imports ! i) (mutual_imports ! j) = Inr True)"
    using build_keeps_every_derived_edge [OF no_raise] by blast
  then have "build_dependency_graph mutual_content mutual_imports = Inr g \<and>
      0 |\<in>| g 1 \<and> 1 |\<in>| g 0"
    using mutual_detect by (simp add: len)
  then show ?thesis using mutual_detect by blast
qed

text \<open>
  C4, as the claim has it, fails: for the two features that import each other the
  builder returns, and the graph holds the edge in both directions.
\<close>

theorem both_edges_counterexample:
  "(case build_dependency_graph mutual_content mutual_imports of
      Inl e \<Rightarrow> None | Inr g \<Rightarrow> Some (g 0, g 1)) = Some ({|1|}, {|0|})"
  by code_simp

text \<open>
  C5. The claim fails on the code by a slip in the docs rule: for a feature without
  scope paired with a docs commit, \<open>None in subject\<close> raises \<open>TypeError\<close>, whatever the
  files hold.
\<close>

theorem build_unscoped_feature_raises:
  "build_dependency_graph content unscoped_feature = Inl TypeError"
  by (simp add: build_dependency_graph_def unscoped_feature_def detect_dependencies_def
        docs_rule_def upt_rec [of 0] upt_rec [of 1])

text \<open>
  C8. The claim fails on the code: for the feature, its test and the docs commit, the
  builder records that commits 1 and 2 depend on commit 0, and the plan says \<open>now\<close> for
  all three, because the dependency sets are read after the sort has emptied them.
\<close>

theorem annotation_ignores_predecessors:
  "(case build_dependency_graph (\<lambda>file. []) scenario_B of
      Inl e \<Rightarrow> None | Inr g \<Rightarrow> Some (g 0, g 1, g 2)) = Some ({||}, {|0|}, {|0|}) \<and>
   map_sum id (map (\<lambda>c. (original_id c, order c, can_execute c)))
     (create_sequence (\<lambda>file. []) scenario_B) =
   Inr [(0, 1, ''now''), (1, 2, ''now''), (2, 3, ''now'')]"
  by code_simp


section \<open>The order of iteration over the file sets\<close>












section \<open>The claims about the classifier\<close>

subsection \<open>The keys of the two dictionaries\<close>

lemma dict_append_keys:
  "map fst (dict_append d k v) = (if k \<in> set (map fst d) then map fst d else map fst d @ [k])"
  by (induction d k v rule: dict_append.induct) auto

lemma dict_append_key_set:
  "set (map fst (dict_append d k v)) = insert k (set (map fst d))"
  by (auto simp: dict_append_keys simp del: set_map)

lemma dict_append_distinct:
  "distinct (map fst d) \<Longrightarrow> distinct (map fst (dict_append d k v))"
  by (simp add: dict_append_keys del: set_map)

lemma fold_dict_append_keys:
  "set (map fst (fold (\<lambda>p d. dict_append d (f p) p) ps d)) = set (map fst d) \<union> f ` set ps"
  by (induction ps arbitrary: d) (simp_all add: dict_append_key_set del: set_map)

lemma fold_dict_append_distinct:
  "distinct (map fst d) \<Longrightarrow> distinct (map fst (fold (\<lambda>p d. dict_append d (f p) p) ps d))"
  by (induction ps arbitrary: d) (simp_all add: dict_append_distinct)

lemma analyze_files_split:
  "types (fold (analyze_file diff_of) ps a) =
     fold (\<lambda>p d. dict_append d (detect_type_from_diff p (diff_of p)) p) ps (types a)"
  "scopes (fold (analyze_file diff_of) ps a) =
     fold (\<lambda>p d. dict_append d (extract_scope_from_path p) p) ps (scopes a)"
  by (induction ps arbitrary: a) (simp_all add: analyze_file_def Let_def)

lemma analyze_files_keys:
  shows type_keys: "set (map fst (types (analyze_files diff_of ps))) =
      (\<lambda>p. detect_type_from_diff p (diff_of p)) ` set ps"
    and type_keys_distinct: "distinct (map fst (types (analyze_files diff_of ps)))"
    and scope_keys: "set (map fst (scopes (analyze_files diff_of ps))) =
      extract_scope_from_path ` set ps"
    and scope_keys_distinct: "distinct (map fst (scopes (analyze_files diff_of ps)))"
  using fold_dict_append_keys [of "\<lambda>p. detect_type_from_diff p (diff_of p)" ps "[]"]
    fold_dict_append_keys [of extract_scope_from_path ps "[]"]
    fold_dict_append_distinct [of "[]" "\<lambda>p. detect_type_from_diff p (diff_of p)" ps]
    fold_dict_append_distinct [of "[]" extract_scope_from_path ps]
  by (simp_all add: analyze_files_def analyze_files_split)




subsection \<open>Facts about the example inputs\<close>

lemma login_test_type: "detect_type_from_diff ''src/auth/login.test.ts'' d = ''test''"
  by (simp add: detect_type_from_diff_def endswith_def)

lemma login_type: "detect_type_from_diff ''src/auth/login.ts'' d \<noteq> ''test''"
  by (simp add: detect_type_from_diff_def endswith_def type_from_diff_content_def Let_def)

lemma login_scopes:
  "extract_scope_from_path ''src/auth/login.test.ts'' = ''auth''"
  "extract_scope_from_path ''src/auth/login.ts'' = ''auth''"
  by (simp_all add: extract_scope_from_path_def skip_prefixes_def split.simps)

lemma scenario_A_files:
  "analyze_files diff_of scenario_A =
     \<lparr>types = [(detect_type_from_diff ''src/auth/login.ts'' (diff_of ''src/auth/login.ts''),
                 [''src/auth/login.ts'']),
                (''test'', [''src/auth/login.test.ts''])],
      scopes = [(''auth'', [''src/auth/login.ts'', ''src/auth/login.test.ts''])]\<rparr>"
  using login_type [of "diff_of ''src/auth/login.ts''"]
  by (simp add: analyze_files_def scenario_A_def analyze_file_def Let_def login_test_type
        login_scopes)

lemma scenario_A_files_rev:
  "analyze_files diff_of (rev scenario_A) =
     \<lparr>types = [(''test'', [''src/auth/login.test.ts'']),
                (detect_type_from_diff ''src/auth/login.ts'' (diff_of ''src/auth/login.ts''),
                 [''src/auth/login.ts''])],
      scopes = [(''auth'', [''src/auth/login.test.ts'', ''src/auth/login.ts''])]\<rparr>"
  using login_type [of "diff_of ''src/auth/login.ts''"]
  by (simp add: analyze_files_def scenario_A_def analyze_file_def Let_def login_test_type
        login_scopes)


text \<open>
  C6, as the code has it. For the change set of \<open>src/auth/login.ts\<close> and
  \<open>src/auth/login.test.ts\<close> with threshold 10, in either order: the only scope is
  \<open>auth\<close> and the file count is within the threshold, but the two files have two
  types, \<open>test\<close> and the type of the implementation file, so the only reason of checks
  1 to 3 is the one for multiple types. There is no exception for a test next to its
  implementation, and \<open>analyze\<close> does not return \<open>should_split = False\<close>.
\<close>

theorem scenario_A_multiple_types:
  "map fst (scopes (analyze_files diff_of scenario_A)) = [''auth''] \<and>
   basic_reasons (analyze_files diff_of scenario_A) (length scenario_A) 10 =
     [''Multiple types detected: '' @
      detect_type_from_diff ''src/auth/login.ts'' (diff_of ''src/auth/login.ts'') @ '', test''] \<and>
   map_sum id fst (analyze diff_of 10 scenario_A) \<noteq> Inr False \<and>
   map fst (scopes (analyze_files diff_of (rev scenario_A))) = [''auth''] \<and>
   basic_reasons (analyze_files diff_of (rev scenario_A)) (length (rev scenario_A)) 10 =
     [''Multiple types detected: test, '' @
      detect_type_from_diff ''src/auth/login.ts'' (diff_of ''src/auth/login.ts'')] \<and>
   map_sum id fst (analyze diff_of 10 (rev scenario_A)) \<noteq> Inr False"
proof -
  have r1: "basic_reasons (analyze_files diff_of scenario_A) (length scenario_A) 10 =
     [''Multiple types detected: '' @
      detect_type_from_diff ''src/auth/login.ts'' (diff_of ''src/auth/login.ts'') @ '', test'']"
    by (simp add: scenario_A_files basic_reasons_def) (simp add: scenario_A_def)
  have r2: "basic_reasons (analyze_files diff_of (rev scenario_A)) (length (rev scenario_A)) 10 =
     [''Multiple types detected: test, '' @
      detect_type_from_diff ''src/auth/login.ts'' (diff_of ''src/auth/login.ts'')]"
    by (simp add: scenario_A_files_rev basic_reasons_def) (simp add: scenario_A_def)
  have ne: "scenario_A \<noteq> []" "rev scenario_A \<noteq> []" by (simp_all add: scenario_A_def)
  have v1: "map_sum id fst (analyze diff_of 10 scenario_A) \<noteq> Inr False"
    using r1 ne(1) by (simp add: analyze_def Let_def split: sum.splits)
  have v2: "map_sum id fst (analyze diff_of 10 (rev scenario_A)) \<noteq> Inr False"
    using r2 ne(2) by (simp add: analyze_def Let_def split: sum.splits)
  show ?thesis
    using r1 r2 v1 v2 by (simp add: scenario_A_files scenario_A_files_rev)
qed

theorem scenario_A_multiple_types_witness:
  "basic_reasons (analyze_files (\<lambda>file. ''+x'') scenario_A) (length scenario_A) 10 =
     [''Multiple types detected: feat, test''] \<and>
   map_sum id fst (analyze (\<lambda>file. ''+x'') 10 scenario_A) \<noteq> Inr False"
proof -
  have "detect_type_from_diff ''src/auth/login.ts'' ''+x'' = ''feat''"
    by code_simp
  then show ?thesis
    using scenario_A_multiple_types [of "\<lambda>file. ''+x''"] by simp
qed

text \<open>
  C6, as the claim has it, fails: with empty diffs the implementation file is a chore,
  the reason for multiple types is collected, and the call ends without a verdict.
\<close>

theorem scenario_A_counterexample:
  "basic_reasons (analyze_files (\<lambda>file. []) scenario_A) (length scenario_A) 10 =
     [''Multiple types detected: chore, test''] \<and>
   map_sum id fst (analyze (\<lambda>file. []) 10 scenario_A) = Inl TypeError"
  by code_simp

text \<open>
  C7. The claim fails on the code by a slip in the mixed-concern check: as soon as one
  file has type \<open>test\<close>, building the set of file lists raises \<open>TypeError\<close>. For the
  single file \<open>src/auth/login.test.ts\<close> no trigger fires, and \<open>analyze\<close> raises
  instead of returning \<open>should_split = False\<close>.
\<close>

theorem analyze_test_file_raises:
  "analyze diff_of limit [''src/auth/login.test.ts''] = Inl TypeError"
  by (simp add: analyze_def analyze_files_def analyze_file_def Let_def login_test_type
        login_scopes detect_mixed_concerns_def)







end
